theory Spec2Isabelle
  imports Main "HOL-Library.Multiset"
begin

section \<open>Isserlis.py: partitions of a list into pairs\<close>

subsection \<open>Exceptions and generators\<close>

text \<open>
  The Python exceptions the functions of \<^verbatim>\<open>Isserlis.py\<close> can raise: \<^verbatim>\<open>tuple.index\<close> and
  \<^verbatim>\<open>max\<close> of an empty list raise \<^verbatim>\<open>ValueError\<close>, an index out of range raises
  \<^verbatim>\<open>IndexError\<close>, a missing dictionary key raises \<^verbatim>\<open>KeyError\<close>.
\<close>

datatype error = ValueError | IndexError | KeyError

text \<open>
  A generator that is run to its end is the list of the values it has yielded, in order,
  together with the way it stopped: \<open>None\<close> when it returned, \<open>Some e\<close> when the
  exception \<open>e\<close> left it (after the values yielded before).
\<close>

type_synonym 'a generator = "'a list \<times> error option"

definition yield :: "'a \<Rightarrow> 'a generator \<Rightarrow> 'a generator" where
  "yield y g = (y # fst g, snd g)"

text \<open>\<^verbatim>\<open>t.index(x)\<close>: the position of the first \<open>x\<close> in \<open>t\<close>, \<^verbatim>\<open>ValueError\<close> when there is none.\<close>

fun tuple_index :: "'a list \<Rightarrow> 'a \<Rightarrow> error + nat" where
  "tuple_index [] x = Inl ValueError"
| "tuple_index (y # ys) x =
     (if y = x then Inr 0
      else (case tuple_index ys x of Inl e \<Rightarrow> Inl e | Inr k \<Rightarrow> Inr (Suc k)))"

text \<open>\<^verbatim>\<open>xs[i]\<close> for an index \<open>i \<ge> 0\<close>: \<^verbatim>\<open>IndexError\<close> out of range.\<close>

definition getitem :: "'a list \<Rightarrow> nat \<Rightarrow> error + 'a" where
  "getitem xs i = (if i < length xs then Inr (xs ! i) else Inl IndexError)"

text \<open>
  A list comprehension \<^verbatim>\<open>[f(x) for x in xs]\<close> whose body can raise: the elements are
  computed from left to right and the first exception ends the comprehension.
\<close>

fun comprehension :: "('a \<Rightarrow> error + 'b) \<Rightarrow> 'a list \<Rightarrow> error + 'b list" where
  "comprehension f [] = Inr []"
| "comprehension f (x # xs) =
     (case f x of
        Inl e \<Rightarrow> Inl e
      | Inr y \<Rightarrow> (case comprehension f xs of Inl e \<Rightarrow> Inl e | Inr ys \<Rightarrow> Inr (y # ys)))"

text \<open>\<^verbatim>\<open>range(0, n, 2)\<close>: the even numbers below \<open>n\<close>.\<close>

definition range2 :: "nat \<Rightarrow> nat list" where
  "range2 n = map (\<lambda>k. 2 * k) [0..<(n + 1) div 2]"

text \<open>
  \<^verbatim>\<open>itertools.permutations(xs)\<close>: all orderings of the positions of \<open>xs\<close>, in
  lexicographic order of the positions (the library's documented order): first the
  permutations that start with \<open>xs[0]\<close>, then those that start with \<open>xs[1]\<close>, and so on,
  each group followed by the permutations of the other elements.
\<close>

function permutations :: "'a list \<Rightarrow> 'a list list" where
  "permutations xs =
     (if xs = [] then [[]]
      else concat (map (\<lambda>i. map ((#) (xs ! i)) (permutations (take i xs @ drop (Suc i) xs)))
                       [0..<length xs]))"
  by pat_completeness auto
termination
  by (relation "measure length") auto

declare permutations.simps [simp del]

subsection \<open>\<^verbatim>\<open>isserlis\<close>\<close>

text \<open>
  The inner function \<^verbatim>\<open>test(n_els, t)\<close>. Its loop over \<^verbatim>\<open>range(0, n_els, 2)\<close> carries the
  cursor \<open>i\<close>; the condition \<^verbatim>\<open>temp < i or temp > t.index(j+1)\<close> evaluates the second
  lookup only when the first comparison is false.
\<close>

fun test_loop :: "nat list \<Rightarrow> nat \<Rightarrow> nat list \<Rightarrow> error + bool" where
  "test_loop t i [] = Inr True"
| "test_loop t i (j # js) =
     (case tuple_index t j of
        Inl e \<Rightarrow> Inl e
      | Inr temp \<Rightarrow>
          if temp < i then Inr False
          else (case tuple_index t (j + 1) of
                  Inl e \<Rightarrow> Inl e
                | Inr u \<Rightarrow> if temp > u then Inr False else test_loop t temp js))"

definition test :: "nat \<Rightarrow> nat list \<Rightarrow> error + bool" where
  "test n_els t =
     (case tuple_index t 0 of
        Inl e \<Rightarrow> Inl e
      | Inr i \<Rightarrow> test_loop t i (range2 n_els))"

text \<open>The yielded list \<^verbatim>\<open>[set_[p.index(i)] for i in range(n_elements)]\<close>.\<close>

definition rearranged :: "'a list \<Rightarrow> nat list \<Rightarrow> error + 'a list" where
  "rearranged seq p =
     comprehension
       (\<lambda>i. case tuple_index p i of Inl e \<Rightarrow> Inl e | Inr k \<Rightarrow> getitem seq k)
       [0..<length seq]"

text \<open>The loop \<^verbatim>\<open>for p in permutations(range(n_elements))\<close> of the generator.\<close>

fun isserlis_loop :: "'a list \<Rightarrow> nat list list \<Rightarrow> 'a list generator" where
  "isserlis_loop seq [] = ([], None)"
| "isserlis_loop seq (p # ps) =
     (case test (length seq) p of
        Inl e \<Rightarrow> ([], Some e)
      | Inr b \<Rightarrow>
          if b then
            (case rearranged seq p of
               Inl e \<Rightarrow> ([], Some e)
             | Inr y \<Rightarrow> yield y (isserlis_loop seq ps))
          else isserlis_loop seq ps)"

definition isserlis :: "'a list \<Rightarrow> 'a list generator" where
  "isserlis seq = isserlis_loop seq (permutations [0..<length seq])"

text \<open>
  The same generator with the list object of the caller made explicit. In Python
  \<^verbatim>\<open>set_\<close> is a reference to a mutable list that the generator shares with its caller;
  \<open>store\<close> is the content of that object. The loop reads it (\<^verbatim>\<open>set_[p.index(i)]\<close>;
  \<^verbatim>\<open>n_elements\<close> was read once, before the loop) and the run returns it as the loop
  leaves it.
\<close>

fun isserlis_loop_store :: "'a list \<Rightarrow> nat \<Rightarrow> nat list list \<Rightarrow> 'a list generator \<times> 'a list" where
  "isserlis_loop_store store n_elements [] = (([], None), store)"
| "isserlis_loop_store store n_elements (p # ps) =
     (case test n_elements p of
        Inl e \<Rightarrow> (([], Some e), store)
      | Inr b \<Rightarrow>
          if b then
            (case comprehension
                    (\<lambda>i. case tuple_index p i of Inl e \<Rightarrow> Inl e | Inr k \<Rightarrow> getitem store k)
                    [0..<n_elements] of
               Inl e \<Rightarrow> (([], Some e), store)
             | Inr y \<Rightarrow>
                 (case isserlis_loop_store store n_elements ps of
                    (g, store') \<Rightarrow> (yield y g, store')))
          else isserlis_loop_store store n_elements ps)"

definition isserlis_store :: "'a list \<Rightarrow> 'a list generator \<times> 'a list" where
  "isserlis_store seq = isserlis_loop_store seq (length seq) (permutations [0..<length seq])"

subsection \<open>\<^verbatim>\<open>isserlis_stationary\<close>\<close>

text \<open>
  \<^verbatim>\<open>l = [abs(el[j+1]-el[j]) for j in range(0, n_elements, 2)]\<close>; the left operand
  \<^verbatim>\<open>el[j+1]\<close> is read first.
\<close>

definition lags :: "nat \<Rightarrow> int list \<Rightarrow> error + int list" where
  "lags n_elements el =
     comprehension
       (\<lambda>j. case getitem el (j + 1) of
              Inl e \<Rightarrow> Inl e
            | Inr a \<Rightarrow> (case getitem el j of Inl e \<Rightarrow> Inl e | Inr b \<Rightarrow> Inr (\<bar>a - b\<bar>)))
       (range2 n_elements)"

text \<open>\<^verbatim>\<open>max(l)\<close>: \<^verbatim>\<open>ValueError\<close> on the empty list.\<close>

fun py_max :: "int list \<Rightarrow> error + int" where
  "py_max [] = Inl ValueError"
| "py_max (x # xs) = Inr (fold max xs x)"

text \<open>\<^verbatim>\<open>tuple([l.count(i) for i in range(max(l)+1)])\<close>, given \<open>m = max(l)\<close>.\<close>

definition shape :: "int list \<Rightarrow> int \<Rightarrow> nat list" where
  "shape l m = map (count_list l) [0..m]"

text \<open>
  The loop \<^verbatim>\<open>for el in isserlis(set_)\<close>: \<open>els\<close> are the lists the inner generator yields
  and \<open>r\<close> is the way it ends; an exception of the inner generator leaves the outer one
  after the shapes of the lists yielded before it.
\<close>

fun stationary_loop :: "nat \<Rightarrow> int list list \<Rightarrow> error option \<Rightarrow> nat list generator" where
  "stationary_loop n_elements [] r = ([], r)"
| "stationary_loop n_elements (el # els) r =
     (case lags n_elements el of
        Inl e \<Rightarrow> ([], Some e)
      | Inr l \<Rightarrow>
          (case py_max l of
             Inl e \<Rightarrow> ([], Some e)
           | Inr m \<Rightarrow> yield (shape l m) (stationary_loop n_elements els r)))"

definition isserlis_stationary :: "int list \<Rightarrow> nat list generator" where
  "isserlis_stationary seq =
     stationary_loop (length seq) (fst (isserlis seq)) (snd (isserlis seq))"

subsection \<open>\<^verbatim>\<open>isserlis_stationary_analytical\<close>\<close>

text \<open>
  \<^verbatim>\<open>set_elements = set(set_)\<close>: Python does not fix the order in which a set is iterated
  (for strings it changes with the hash seed of the process), so the order is a parameter
  here: the list \<open>set_elements\<close> of the distinct elements of \<open>seq\<close> in the order the
  iteration gives them.
\<close>

definition set_iteration :: "'a list \<Rightarrow> 'a list \<Rightarrow> bool" where
  "set_iteration seq set_elements \<longleftrightarrow> distinct set_elements \<and> set set_elements = set seq"

text \<open>
  The dictionary \<^verbatim>\<open>{el: 2**k-1 for k,el in enumerate(set_elements)}\<close>, filled in the
  order of the enumeration.
\<close>

definition correspondances :: "'a list \<Rightarrow> ('a \<rightharpoonup> int)" where
  "correspondances set_elements =
     fold (\<lambda>(k, el) d. d(el \<mapsto> 2 ^ k - 1)) (enumerate 0 set_elements) Map.empty"

definition isserlis_stationary_analytical ::
  "'a list \<Rightarrow> 'a list \<Rightarrow> error + (int list \<times> nat list generator)" where
  "isserlis_stationary_analytical set_elements seq =
     (case comprehension
             (\<lambda>el. case correspondances set_elements el of
                     None \<Rightarrow> Inl KeyError
                   | Some v \<Rightarrow> Inr v)
             seq of
        Inl e \<Rightarrow> Inl e
      | Inr set_to_numbers \<Rightarrow> Inr (set_to_numbers, isserlis_stationary set_to_numbers))"

subsection \<open>Notions for the proofs\<close>

text \<open>
  The tuples that \<^verbatim>\<open>permutations(range(n))\<close> gives: every position below \<open>n\<close> once.
\<close>

definition position_perm :: "nat \<Rightarrow> nat list \<Rightarrow> bool" where
  "position_perm n p \<longleftrightarrow> distinct p \<and> set p = {0..<n}"

text \<open>
  \<^verbatim>\<open>p.index(i)\<close> as a number, for a value \<open>i\<close> that is in \<open>p\<close> (otherwise \<open>length p\<close>).
\<close>

definition the_index :: "nat list \<Rightarrow> nat \<Rightarrow> nat" where
  "the_index p i = (case tuple_index p i of Inl e \<Rightarrow> length p | Inr k \<Rightarrow> k)"

text \<open>
  The inverse permutation \<^verbatim>\<open>[p.index(i) for i in range(len(p))]\<close>: the original position that
  each output slot takes its element from.
\<close>

definition positions :: "nat list \<Rightarrow> nat list" where
  "positions p = map (the_index p) [0..<length p]"

text \<open>
  What the loop of \<^verbatim>\<open>test\<close> checks, read on the inverse permutation \<open>q\<close>: with the cursor
  at \<open>i\<close>, the next pair \<open>(a, b)\<close> of \<open>q\<close> has \<open>i \<le> a \<le> b\<close>, and the cursor moves to \<open>a\<close>.
\<close>

fun canon_from :: "nat \<Rightarrow> nat list \<Rightarrow> bool" where
  "canon_from i (a # b # r) = (i \<le> a \<and> a \<le> b \<and> canon_from a r)"
| "canon_from i [a] = False"
| "canon_from i [] = True"

text \<open>
  The canonical form: the cursor starts at the first element of \<open>q\<close>.
\<close>

definition canon :: "nat list \<Rightarrow> bool" where
  "canon q = (case q of [] \<Rightarrow> True | a # r \<Rightarrow> canon_from a q)"

text \<open>
  The inverse permutations of the permutations that pass \<^verbatim>\<open>test\<close>, in the order of
  \<^verbatim>\<open>permutations\<close>: the lists of positions behind the partitions that are yielded.
\<close>

definition pairings :: "nat \<Rightarrow> nat list list" where
  "pairings n = map positions (filter (\<lambda>p. canon (positions p)) (permutations [0..<n]))"

text \<open>
  The double factorial \<open>(2n-1)!! = 1 \<cdot> 3 \<cdot> \<dots> \<cdot> (2n-1)\<close>, as a function of \<open>n\<close>; the empty product
  \<open>(-1)!!\<close> is 1.
\<close>

fun dfact_odd :: "nat \<Rightarrow> nat" where
  "dfact_odd 0 = 1"
| "dfact_odd (Suc n) = (2 * n + 1) * dfact_odd n"

text \<open>
  The set of unordered pairs that a list stands for: slots \<open>(0,1)\<close>, \<open>(2,3)\<close>, and so on.
\<close>

fun pairs_of :: "nat list \<Rightarrow> nat set set" where
  "pairs_of (a # b # r) = insert {a, b} (pairs_of r)"
| "pairs_of [a] = {}"
| "pairs_of [] = {}"

text \<open>
  The lists in canonical form that arrange a given set of positions.
\<close>

definition canon_lists :: "nat set \<Rightarrow> nat list set" where
  "canon_lists S = {q. distinct q \<and> set q = S \<and> canon q}"

section \<open>Basic facts\<close>

subsection \<open>\<^verbatim>\<open>index\<close> on tuples\<close>

lemma tuple_index_Inl_iff: "tuple_index t x = Inl e \<longleftrightarrow> e = ValueError \<and> x \<notin> set t"
  by (induction t) (auto split: sum.splits)

lemma tuple_index_notin: "x \<notin> set t \<Longrightarrow> tuple_index t x = Inl ValueError"
  by (simp add: tuple_index_Inl_iff)

lemma tuple_index_Inr_bound: "tuple_index t x = Inr k \<Longrightarrow> k < length t \<and> t ! k = x"
  by (induction t arbitrary: k) (auto split: sum.splits if_splits)

lemma tuple_index_nth: "distinct t \<Longrightarrow> k < length t \<Longrightarrow> tuple_index t (t ! k) = Inr k"
proof (induction t arbitrary: k)
  case Nil
  then show ?case by simp
next
  case (Cons y ys)
  show ?case
  proof (cases k)
    case 0
    then show ?thesis by simp
  next
    case (Suc k')
    with Cons.prems have "k' < length ys" "distinct ys" "ys ! k' \<noteq> y"
      by auto
    with Cons.IH[of k'] Suc show ?thesis by simp
  qed
qed

lemma tuple_index_upt: "x < n \<Longrightarrow> tuple_index [0..<n] x = Inr x"
  using tuple_index_nth[of "[0..<n]" x] by simp

lemma tuple_index_upt_out: "\<not> x < n \<Longrightarrow> tuple_index [0..<n] x = Inl ValueError"
  by (simp add: tuple_index_notin)

subsection \<open>The empty input\<close>

lemma isserlis_empty: "isserlis ([]::'a list) = ([], Some ValueError)"
  by (simp add: isserlis_def permutations.simps test_def)

lemma isserlis_stationary_empty: "isserlis_stationary [] = ([], Some ValueError)"
  by (simp add: isserlis_stationary_def isserlis_empty)

subsection \<open>Inputs of odd length\<close>

text \<open>The first permutation that \<^verbatim>\<open>itertools.permutations\<close> gives is the input itself.\<close>

lemma permutations_first: "\<exists>rest. permutations xs = xs # rest"
proof (induction xs)
  case Nil
  then show ?case by (simp add: permutations.simps)
next
  case (Cons x xs)
  then obtain rest where r: "permutations xs = xs # rest" by blast
  have "[0..<Suc (length xs)] = 0 # [Suc 0..<Suc (length xs)]"
    by (rule upt_conv_Cons) simp
  then show ?case
    by (subst permutations.simps) (simp add: r del: upt_Suc)
qed

text \<open>
  On the identity permutation of an odd number of positions the loop of \<^verbatim>\<open>test\<close> passes
  every pair and then looks up the value \<open>n\<close>, which is not in the tuple.
\<close>

lemma test_loop_odd:
  assumes "odd n"
  shows "k < (n + 1) div 2 \<Longrightarrow> i \<le> 2 * k \<Longrightarrow>
    test_loop [0..<n] i (map (\<lambda>k. 2 * k) [k..<(n + 1) div 2]) = Inl ValueError"
proof (induction "(n + 1) div 2 - k" arbitrary: k i)
  case 0
  then show ?case by simp
next
  case (Suc d)
  have kn: "2 * k < n" using Suc.prems(1) assms by presburger
  have upt: "[k..<(n + 1) div 2] = k # [Suc k..<(n + 1) div 2]"
    using Suc.prems(1) by (simp add: upt_conv_Cons)
  show ?case
  proof (cases "2 * k + 1 < n")
    case True
    then have k': "Suc k < (n + 1) div 2" using assms by presburger
    have "d = (n + 1) div 2 - Suc k" using Suc.hyps(2) by simp
    from Suc.hyps(1)[OF this k', of "2 * k"]
    have "test_loop [0..<n] (2 * k) (map (\<lambda>k. 2 * k) [Suc k..<(n + 1) div 2]) = Inl ValueError"
      by simp
    then show ?thesis
      using kn True Suc.prems(2) by (subst upt) (simp add: tuple_index_upt)
  next
    case False
    then show ?thesis
      using kn Suc.prems(2) by (subst upt) (simp add: tuple_index_upt tuple_index_upt_out)
  qed
qed

lemma test_odd_identity: "odd n \<Longrightarrow> test n [0..<n] = Inl ValueError"
proof -
  assume o: "odd n"
  then have "0 < n" by (cases n) auto
  then have "0 < (n + 1) div 2" by simp
  from test_loop_odd[OF o this, of 0] \<open>0 < n\<close> show ?thesis
    by (simp add: test_def range2_def tuple_index_upt)
qed

lemma isserlis_odd: "odd (length seq) \<Longrightarrow> isserlis seq = ([], Some ValueError)"
proof -
  assume o: "odd (length seq)"
  obtain rest where "permutations [0..<length seq] = [0..<length seq] # rest"
    using permutations_first by blast
  then show ?thesis
    using test_odd_identity[OF o] by (simp add: isserlis_def)
qed

subsection \<open>The permutations\<close>

lemma mset_remove_nth:
  "i < length xs \<Longrightarrow> mset xs = add_mset (xs ! i) (mset (take i xs @ drop (Suc i) xs))"
proof -
  assume "i < length xs"
  then have "xs = take i xs @ xs ! i # drop (Suc i) xs"
    by (rule id_take_nth_drop)
  then have "mset xs = mset (take i xs @ xs ! i # drop (Suc i) xs)"
    by simp
  then show ?thesis by simp
qed

lemma permutations_nonempty:
  "xs \<noteq> [] \<Longrightarrow> set (permutations xs) =
     (\<Union>i\<in>{0..<length xs}. (#) (xs ! i) ` set (permutations (take i xs @ drop (Suc i) xs)))"
  by (subst permutations.simps) auto

lemma set_permutations: "set (permutations xs) = {p. mset p = mset xs}"
proof (induction xs rule: permutations.induct)
  case (1 xs)
  show ?case
  proof (cases "xs = []")
    case True
    then show ?thesis by (simp add: permutations.simps)
  next
    case False
    have IH: "set (permutations (take i xs @ drop (Suc i) xs)) =
        {p. mset p = mset (take i xs @ drop (Suc i) xs)}" if "i < length xs" for i
      using "1.IH"[OF False, of i] that by simp
    show ?thesis
    proof (rule set_eqI, rule iffI)
      fix p assume "p \<in> set (permutations xs)"
      then obtain i p' where i: "i < length xs" and p: "p = xs ! i # p'"
        and p': "p' \<in> set (permutations (take i xs @ drop (Suc i) xs))"
        unfolding permutations_nonempty[OF False] by auto
      from p' IH[OF i] have "mset p' = mset (take i xs @ drop (Suc i) xs)" by simp
      with mset_remove_nth[OF i] p show "p \<in> {p. mset p = mset xs}" by simp
    next
      fix p assume "p \<in> {p. mset p = mset xs}"
      then have m: "mset p = mset xs" by simp
      with False have "p \<noteq> []" by auto
      then obtain a p' where p: "p = a # p'" by (cases p) auto
      with m have "a \<in> set xs" by (metis list.set_intros(1) mset_eq_setD)
      then obtain i where i: "i < length xs" and a: "xs ! i = a"
        by (auto simp: in_set_conv_nth)
      from m p mset_remove_nth[OF i] a
      have "mset p' = mset (take i xs @ drop (Suc i) xs)" by simp
      with IH[OF i] have "p' \<in> set (permutations (take i xs @ drop (Suc i) xs))" by simp
      with i a p show "p \<in> set (permutations xs)"
        unfolding permutations_nonempty[OF False] by auto
    qed
  qed
qed

lemma distinct_permutations: "distinct xs \<Longrightarrow> distinct (permutations xs)"
proof (induction xs rule: permutations.induct)
  case (1 xs)
  show ?case
  proof (cases "xs = []")
    case True
    then show ?thesis by (simp add: permutations.simps)
  next
    case False
    let ?F = "\<lambda>i. map ((#) (xs ! i)) (permutations (take i xs @ drop (Suc i) xs))"
    have d: "distinct (take i xs @ drop (Suc i) xs)" if "i < length xs" for i
    proof -
      have "xs = take i xs @ xs ! i # drop (Suc i) xs"
        using that by (rule id_take_nth_drop)
      then have "distinct (take i xs @ xs ! i # drop (Suc i) xs)"
        using "1.prems" by simp
      then show ?thesis by simp
    qed
    have IH: "distinct (permutations (take i xs @ drop (Suc i) xs))" if "i < length xs" for i
      using "1.IH"[OF False, of i] that d by simp
    have each: "distinct (?F i)" if "i < length xs" for i
      using IH[OF that] by (simp add: distinct_map)
    have hd: "\<And>p. p \<in> set (?F i) \<Longrightarrow> hd p = xs ! i" for i
      by auto
    have ne: "?F i \<noteq> []" for i
      using permutations_first[of "take i xs @ drop (Suc i) xs"] by auto
    have disj: "set (?F i) \<inter> set (?F j) = {}" if "i < length xs" "j < length xs" "i \<noteq> j" for i j
    proof -
      have "xs ! i \<noteq> xs ! j" using that "1.prems" by (simp add: nth_eq_iff_index_eq)
      then show ?thesis by auto
    qed
    have inj: "inj_on ?F {0..<length xs}"
    proof (rule inj_onI)
      fix i j assume ij: "i \<in> {0..<length xs}" "j \<in> {0..<length xs}" and eq: "?F i = ?F j"
      show "i = j"
      proof (rule ccontr)
        assume "i \<noteq> j"
        with disj[of i j] ij have "set (?F i) \<inter> set (?F j) = {}" by simp
        with eq have "set (?F i) = {}" by simp
        with ne[of i] show False by simp
      qed
    qed
    have "distinct (concat (map ?F [0..<length xs]))"
    proof (rule distinct_concat)
      show "distinct (map ?F [0..<length xs])"
        using inj by (simp add: distinct_map)
    next
      fix ys assume "ys \<in> set (map ?F [0..<length xs])"
      then show "distinct ys" using each by auto
    next
      fix ys zs assume "ys \<in> set (map ?F [0..<length xs])" "zs \<in> set (map ?F [0..<length xs])" "ys \<noteq> zs"
      then obtain i j where ij: "i < length xs" "j < length xs" "ys = ?F i" "zs = ?F j"
        and "ys \<noteq> zs"
        by auto
      then have "i \<noteq> j" by auto
      with ij show "set ys \<inter> set zs = {}" using disj[of i j] by simp
    qed
    then show ?thesis
      using False by (subst permutations.simps) simp
  qed
qed

subsection \<open>Inverse permutations\<close>

lemma position_perm_length: "position_perm n p \<Longrightarrow> length p = n"
  unfolding position_perm_def using distinct_card[of p] by auto

lemma position_perm_mset: "position_perm n p \<longleftrightarrow> mset p = mset [0..<n]"
proof
  assume "position_perm n p"
  then have "distinct p" "set p = set [0..<n]" by (auto simp: position_perm_def)
  then show "mset p = mset [0..<n]"
    using set_eq_iff_mset_eq_distinct[of p "[0..<n]"] by simp
next
  assume m: "mset p = mset [0..<n]"
  then have "set p = set [0..<n]" by (rule mset_eq_setD)
  moreover have "distinct p" using m mset_eq_imp_distinct_iff[OF m] by simp
  ultimately show "position_perm n p" by (simp add: position_perm_def)
qed

lemma set_permutations_upt: "set (permutations [0..<n]) = {p. position_perm n p}"
  by (simp add: set_permutations position_perm_mset)

lemma tuple_index_perm:
  assumes "position_perm n p" "i < n"
  shows "tuple_index p i = Inr (the_index p i)" "the_index p i < n" "p ! the_index p i = i"
proof -
  from assms have "i \<in> set p" by (simp add: position_perm_def)
  then obtain k where k: "tuple_index p i = Inr k"
    by (cases "tuple_index p i") (auto simp: tuple_index_Inl_iff)
  then show "tuple_index p i = Inr (the_index p i)" by (simp add: the_index_def)
  from k tuple_index_Inr_bound[OF k] position_perm_length[OF assms(1)]
  show "the_index p i < n" "p ! the_index p i = i" by (simp_all add: the_index_def)
qed

lemma the_index_nth:
  assumes "position_perm n p" "k < n"
  shows "the_index p (p ! k) = k"
  using assms tuple_index_nth[of p k] position_perm_length[OF assms(1)]
  by (simp add: the_index_def position_perm_def)

lemma length_positions: "length (positions p) = length p"
  by (simp add: positions_def)

lemma positions_nth: "i < length p \<Longrightarrow> positions p ! i = the_index p i"
  by (simp add: positions_def)

lemma position_perm_positions:
  assumes "position_perm n p"
  shows "position_perm n (positions p)"
proof -
  note len = position_perm_length[OF assms]
  have d: "distinct (positions p)"
    unfolding distinct_conv_nth length_positions
  proof (intro allI impI)
    fix i j assume ij: "i < length p" "j < length p" "i \<noteq> j"
    show "positions p ! i \<noteq> positions p ! j"
    proof
      assume "positions p ! i = positions p ! j"
      then have "the_index p i = the_index p j" using ij by (simp add: positions_nth)
      then have "p ! the_index p i = p ! the_index p j" by simp
      then show False using ij tuple_index_perm(3)[OF assms] len by simp
    qed
  qed
  have sub: "set (positions p) \<subseteq> {0..<n}"
    using tuple_index_perm(2)[OF assms] len by (auto simp: positions_def)
  have "card (set (positions p)) = n"
    using distinct_card[OF d] len by (simp add: length_positions)
  then have "set (positions p) = {0..<n}"
    using sub by (simp add: card_subset_eq)
  with d show ?thesis by (simp add: position_perm_def)
qed

lemma positions_positions:
  assumes "position_perm n p"
  shows "positions (positions p) = p"
proof (rule nth_equalityI)
  show "length (positions (positions p)) = length p" by (simp add: length_positions)
next
  note len = position_perm_length[OF assms]
  note q = position_perm_positions[OF assms]
  fix k assume "k < length (positions (positions p))"
  then have k: "k < n" using len by (simp add: length_positions)
  then have pk: "p ! k < n" using assms len by (auto simp: position_perm_def)
  have "positions p ! (p ! k) = k"
    using pk len the_index_nth[OF assms k] by (simp add: positions_nth)
  then have "the_index (positions p) k = p ! k"
    using the_index_nth[OF q pk] by simp
  then show "positions (positions p) ! k = p ! k"
    using k len by (simp add: positions_nth length_positions)
qed

lemma comprehension_Inr:
  "(\<And>x. x \<in> set xs \<Longrightarrow> f x = Inr (g x)) \<Longrightarrow> comprehension f xs = Inr (map g xs)"
  by (induction xs) auto

lemma rearranged_perm:
  assumes "position_perm (length seq) p"
  shows "rearranged seq p = Inr (map ((!) seq) (positions p))"
proof -
  note len = position_perm_length[OF assms]
  have "rearranged seq p = Inr (map (\<lambda>i. seq ! the_index p i) [0..<length seq])"
    unfolding rearranged_def
    by (rule comprehension_Inr) (use tuple_index_perm[OF assms] in \<open>simp add: getitem_def\<close>)
  then show ?thesis using len by (simp add: positions_def o_def)
qed

subsection \<open>The test as a canonical form\<close>

lemma test_loop_even:
  assumes p: "position_perm (2 * m) p"
  shows "k \<le> m \<Longrightarrow>
    test_loop p i (map (\<lambda>k. 2 * k) [k..<m]) = Inr (canon_from i (drop (2 * k) (positions p)))"
proof (induction "m - k" arbitrary: k i)
  case 0
  then have "k = m" by simp
  then show ?case
    using position_perm_length[OF p] by (simp add: length_positions)
next
  case (Suc d)
  then have km: "k < m" by simp
  note len = position_perm_length[OF p]
  let ?q = "positions p"
  have upt: "[k..<m] = k # [Suc k..<m]" using km by (simp add: upt_conv_Cons)
  have i0: "tuple_index p (2 * k) = Inr (?q ! (2 * k))"
    using tuple_index_perm(1)[OF p, of "2 * k"] km len by (simp add: positions_nth)
  have i1: "tuple_index p (2 * k + 1) = Inr (?q ! (2 * k + 1))"
    using tuple_index_perm(1)[OF p, of "2 * k + 1"] km len by (simp add: positions_nth)
  have "drop (2 * k) ?q = ?q ! (2 * k) # drop (Suc (2 * k)) ?q"
    using km len by (simp add: Cons_nth_drop_Suc length_positions)
  also have "drop (Suc (2 * k)) ?q = ?q ! (2 * k + 1) # drop (2 * Suc k) ?q"
    using km len by (simp add: Cons_nth_drop_Suc length_positions)
  finally have dr: "drop (2 * k) ?q = ?q ! (2 * k) # ?q ! (2 * k + 1) # drop (2 * Suc k) ?q" .
  have "d = m - Suc k" using Suc.hyps(2) by simp
  from Suc.hyps(1)[OF this, of "?q ! (2 * k)"] km
  have IH: "test_loop p (?q ! (2 * k)) (map (\<lambda>k. 2 * k) [Suc k..<m]) =
      Inr (canon_from (?q ! (2 * k)) (drop (2 * Suc k) ?q))" by simp
  show ?case
    unfolding upt dr using IH i0 i1 by (auto simp: not_less)
qed

lemma test_even:
  assumes p: "position_perm (2 * m) p" and m: "0 < m"
  shows "test (2 * m) p = Inr (canon (positions p))"
proof -
  note len = position_perm_length[OF p]
  have r: "range2 (2 * m) = map (\<lambda>k. 2 * k) [0..<m]" by (simp add: range2_def)
  have i0: "tuple_index p 0 = Inr (positions p ! 0)"
    using tuple_index_perm(1)[OF p, of 0] m len by (simp add: positions_nth)
  have "positions p \<noteq> []" using len m length_positions[of p] by auto
  then have c: "canon (positions p) = canon_from (positions p ! 0) (positions p)"
    by (cases "positions p") (simp_all add: canon_def)
  show ?thesis
    unfolding test_def r i0 c using test_loop_even[OF p, of 0] by simp
qed

lemma isserlis_loop_even:
  assumes "length seq = 2 * m" "0 < m"
  shows "(\<And>p. p \<in> set ps \<Longrightarrow> position_perm (2 * m) p) \<Longrightarrow>
    isserlis_loop seq ps =
      (map (\<lambda>p. map ((!) seq) (positions p)) (filter (\<lambda>p. canon (positions p)) ps), None)"
proof (induction ps)
  case Nil
  then show ?case by simp
next
  case (Cons p ps)
  have p: "position_perm (2 * m) p" using Cons.prems by simp
  have IH: "isserlis_loop seq ps =
      (map (\<lambda>p. map ((!) seq) (positions p)) (filter (\<lambda>p. canon (positions p)) ps), None)"
    using Cons by simp
  have t: "test (length seq) p = Inr (canon (positions p))"
    using test_even[OF p assms(2)] assms(1) by simp
  have r: "rearranged seq p = Inr (map ((!) seq) (positions p))"
    using rearranged_perm[of seq p] p assms(1) by simp
  show ?case by (simp add: t r IH yield_def)
qed

lemma isserlis_even:
  assumes "length seq = 2 * m" "0 < m"
  shows "isserlis seq = (map (map ((!) seq)) (pairings (2 * m)), None)"
proof -
  have "isserlis seq = (map (\<lambda>p. map ((!) seq) (positions p))
      (filter (\<lambda>p. canon (positions p)) (permutations [0..<2 * m])), None)"
    unfolding isserlis_def assms(1)
    by (rule isserlis_loop_even[OF assms]) (simp add: set_permutations_upt)
  then show ?thesis by (simp add: pairings_def o_def)
qed

lemma pairings_perm: "q \<in> set (pairings n) \<Longrightarrow> position_perm n q \<and> canon q"
  by (auto simp: pairings_def set_permutations_upt position_perm_positions)

lemma map_nth_upt_id:
  assumes "\<And>x. x \<in> set q \<Longrightarrow> x < n"
  shows "map ((!) [0..<n]) q = q"
  using assms by (induction q) auto

lemma isserlis_upt:
  assumes "0 < m"
  shows "isserlis [0..<2 * m] = (pairings (2 * m), None)"
proof -
  have "map (map ((!) [0..<2 * m])) (pairings (2 * m)) = pairings (2 * m)"
  proof (rule map_idI)
    fix q assume "q \<in> set (pairings (2 * m))"
    then have "position_perm (2 * m) q" by (simp add: pairings_perm)
    then show "map ((!) [0..<2 * m]) q = q"
      by (intro map_nth_upt_id) (auto simp: position_perm_def)
  qed
  then show ?thesis using isserlis_even[of "[0..<2 * m]" m] assms by simp
qed

subsection \<open>Canonical lists and their pairs\<close>

lemma canon_from_lower: "canon_from i q \<Longrightarrow> x \<in> set q \<Longrightarrow> i \<le> x"
  by (induction i q rule: canon_from.induct) auto

lemma canon_from_even: "canon_from i q \<Longrightarrow> even (length q)"
  by (induction i q rule: canon_from.induct) auto

lemma canon_from_canon: "canon_from i q \<Longrightarrow> canon q"
  by (cases "(i, q)" rule: canon_from.cases) (auto simp: canon_def)

lemma canon_from_iff: "canon_from a r \<longleftrightarrow> canon r \<and> (\<forall>x\<in>set r. a \<le> x)"
proof
  assume "canon_from a r"
  then show "canon r \<and> (\<forall>x\<in>set r. a \<le> x)"
    using canon_from_lower canon_from_canon by blast
next
  assume "canon r \<and> (\<forall>x\<in>set r. a \<le> x)"
  then show "canon_from a r"
    by (cases "(a, r)" rule: canon_from.cases) (auto simp: canon_def)
qed

lemma canon_Cons2: "canon (a # b # r) \<longleftrightarrow> a \<le> b \<and> canon r \<and> (\<forall>x\<in>set r. a \<le> x)"
proof -
  have "canon (a # b # r) \<longleftrightarrow> a \<le> b \<and> canon_from a r" by (simp add: canon_def)
  then show ?thesis using canon_from_iff[of a r] by simp
qed

lemma canon_even: "canon q \<Longrightarrow> even (length q)"
  by (cases q) (auto simp: canon_def dest: canon_from_even)

lemma canon_single: "\<not> canon [a]"
  by (simp add: canon_def)

lemma canon_Nil: "canon []"
  by (simp add: canon_def)

lemma Union_pairs_of: "even (length q) \<Longrightarrow> \<Union>(pairs_of q) = set q"
  by (induction q rule: pairs_of.induct) auto

lemma pairs_of_inj:
  "canon q \<Longrightarrow> canon q' \<Longrightarrow> distinct q \<Longrightarrow> distinct q' \<Longrightarrow> pairs_of q = pairs_of q' \<Longrightarrow> q = q'"
proof (induction q arbitrary: q' rule: pairs_of.induct)
  case (1 a b r)
  from "1.prems"(5) have ne: "pairs_of q' \<noteq> {}" by auto
  then obtain a' b' r' where q': "q' = a' # b' # r'"
    by (cases q' rule: pairs_of.cases) auto
  note c = "1.prems"(1)[unfolded canon_Cons2] and c' = "1.prems"(2)[unfolded q' canon_Cons2]
  have ev: "even (length r)" "even (length r')" using c c' canon_even by auto
  have "\<Union>(pairs_of (a # b # r)) = \<Union>(pairs_of q')" using "1.prems"(5) by simp
  then have sets: "set (a # b # r) = set (a' # b' # r')"
    unfolding q' using ev by (simp add: Union_pairs_of)
  have "a \<le> a'" using sets c by auto
  moreover have "a' \<le> a" using sets c' by (metis list.set_intros(1) order_refl set_ConsD)
  ultimately have a: "a' = a" by simp
  have nr: "a \<notin> set r" "a \<notin> set r'" "a \<noteq> b" "a \<noteq> b'"
    using "1.prems"(3,4) unfolding q' a by auto
  have notin: "{a, x} \<notin> pairs_of r" "{a, x} \<notin> pairs_of r'" for x
    using Union_pairs_of[OF ev(1)] Union_pairs_of[OF ev(2)] nr by blast+
  have eq: "insert {a, b} (pairs_of r) = insert {a, b'} (pairs_of r')"
    using "1.prems"(5) unfolding q' a by simp
  then have "{a, b} \<in> insert {a, b'} (pairs_of r')" by blast
  with notin have "{a, b} = {a, b'}" by simp
  then have b: "b' = b" using nr by (auto simp: doubleton_eq_iff)
  from eq have "pairs_of r = pairs_of r'"
    unfolding b using notin[of b] by (metis insert_ident)
  then have "r = r'"
    using "1.IH"[of r'] c c' "1.prems"(3,4) unfolding q' by simp
  then show ?case unfolding q' a b by simp
next
  case (2 a)
  then show ?case by (simp add: canon_single)
next
  case 3
  then show ?case
    by (cases q' rule: pairs_of.cases) (auto simp: canon_single)
qed

subsection \<open>Counting the canonical lists\<close>

lemma finite_canon_lists: "finite S \<Longrightarrow> finite (canon_lists S)"
proof -
  assume f: "finite S"
  have "canon_lists S \<subseteq> {q. set q \<subseteq> S \<and> length q = card S}"
    by (auto simp: canon_lists_def distinct_card)
  moreover have "finite {q. set q \<subseteq> S \<and> length q = card S}"
    using f by (rule finite_lists_length_eq)
  ultimately show ?thesis by (rule finite_subset)
qed

lemma canon_lists_empty: "canon_lists {} = {[]}"
  by (auto simp: canon_lists_def canon_Nil)

lemma canon_lists_step:
  assumes f: "finite S" and ne: "S \<noteq> {}"
  shows "canon_lists S =
    (\<Union>b\<in>S - {Min S}. (\<lambda>r. Min S # b # r) ` canon_lists (S - {Min S, b}))"
proof (rule set_eqI, rule iffI)
  fix q assume "q \<in> canon_lists S"
  then have q: "distinct q" "set q = S" "canon q" by (auto simp: canon_lists_def)
  from q(2) ne have "q \<noteq> []" by auto
  moreover have "q \<noteq> [x]" for x using q(3) canon_single by auto
  ultimately obtain a b r where qq: "q = a # b # r"
    by (cases q rule: pairs_of.cases) auto
  note c = q(3)[unfolded qq canon_Cons2]
  have "a \<in> S" using q(2) qq by auto
  moreover have "a \<le> x" if "x \<in> S" for x using that q(2) c unfolding qq by auto
  ultimately have a: "Min S = a" using f by (intro Min_eqI) auto
  have b: "b \<in> S - {Min S}" using q(1,2) unfolding qq a by auto
  have "set r = S - {a, b}" using q(1,2) unfolding qq by auto
  then have "r \<in> canon_lists (S - {Min S, b})"
    using q(1) c unfolding qq a by (simp add: canon_lists_def)
  with b show "q \<in> (\<Union>b\<in>S - {Min S}. (\<lambda>r. Min S # b # r) ` canon_lists (S - {Min S, b}))"
    unfolding qq a by blast
next
  fix q assume "q \<in> (\<Union>b\<in>S - {Min S}. (\<lambda>r. Min S # b # r) ` canon_lists (S - {Min S, b}))"
  then obtain b r where b: "b \<in> S" "b \<noteq> Min S" and r: "r \<in> canon_lists (S - {Min S, b})"
    and qq: "q = Min S # b # r" by auto
  from r have rr: "distinct r" "set r = S - {Min S, b}" "canon r"
    by (auto simp: canon_lists_def)
  have m: "Min S \<in> S" using f ne by (rule Min_in)
  have le: "Min S \<le> x" if "x \<in> S" for x using f that by (rule Min_le)
  have "distinct q" using rr b unfolding qq by auto
  moreover have "set q = S" using rr b m unfolding qq by auto
  moreover have "canon q" unfolding qq canon_Cons2 using rr le b by auto
  ultimately show "q \<in> canon_lists S" by (simp add: canon_lists_def)
qed

lemma cons2_image_disjoint:
  "b \<noteq> c \<Longrightarrow> (\<lambda>r. a # b # r) ` X \<inter> (\<lambda>r. a # c # r) ` Y = {}"
  by auto

lemma card_cons2_image: "card ((\<lambda>r. a # b # r) ` X) = card X"
  by (rule card_image) (rule inj_onI, simp)

lemma card_Diff2:
  assumes "finite S" "a \<in> S" "b \<in> S" "a \<noteq> b" "card S = Suc (Suc k)"
  shows "card (S - {a, b}) = k"
proof -
  have "S - {a, b} = S - {a} - {b}" by blast
  moreover have "card (S - {a}) = Suc k" using assms by simp
  moreover have "b \<in> S - {a}" using assms by simp
  ultimately show ?thesis by simp
qed

lemma card_canon_lists:
  "finite S \<Longrightarrow> card S = 2 * n \<Longrightarrow> card (canon_lists S) = dfact_odd n"
proof (induction n arbitrary: S)
  case 0
  then have "S = {}" by simp
  then show ?case by (simp add: canon_lists_empty)
next
  case (Suc n)
  have ne: "S \<noteq> {}" using Suc.prems(2) by auto
  define a where "a = Min S"
  define A where "A = (\<lambda>b. (\<lambda>r. a # b # r) ` canon_lists (S - {a, b}))"
  have m: "a \<in> S" unfolding a_def using Suc.prems(1) ne by (rule Min_in)
  have cS: "card S = Suc (Suc (2 * n))" using Suc.prems(2) by simp
  have cardA: "card (A b) = dfact_odd n" if "b \<in> S - {a}" for b
  proof -
    have "card (S - {a, b}) = 2 * n"
      using that m by (intro card_Diff2[OF Suc.prems(1) _ _ _ cS]) auto
    moreover have "finite (S - {a, b})" using Suc.prems(1) by simp
    ultimately have "card (canon_lists (S - {a, b})) = dfact_odd n"
      by (rule Suc.IH[rotated])
    then show ?thesis unfolding A_def by (simp only: card_cons2_image)
  qed
  have "canon_lists S = (\<Union>b\<in>S - {a}. A b)"
    unfolding A_def a_def by (rule canon_lists_step[OF Suc.prems(1) ne])
  then have "card (canon_lists S) = card (\<Union>b\<in>S - {a}. A b)"
    by (rule arg_cong)
  also have "\<dots> = (\<Sum>b\<in>S - {a}. card (A b))"
  proof (rule card_UN_disjoint)
    show "finite (S - {a})" using Suc.prems(1) by simp
    show "\<forall>b\<in>S - {a}. finite (A b)"
      unfolding A_def using Suc.prems(1) by (intro ballI finite_imageI finite_canon_lists) simp
    show "\<forall>b\<in>S - {a}. \<forall>c\<in>S - {a}. b \<noteq> c \<longrightarrow> A b \<inter> A c = {}"
      unfolding A_def by (intro ballI impI cons2_image_disjoint)
  qed
  also have "\<dots> = (\<Sum>b\<in>S - {a}. dfact_odd n)"
    by (rule sum.cong) (simp_all only: cardA)
  also have "\<dots> = card (S - {a}) * dfact_odd n" by simp
  also have "card (S - {a}) = 2 * n + 1"
    using m Suc.prems(1) cS by simp
  finally show ?case by simp
qed

lemma set_pairings: "set (pairings n) = canon_lists {0..<n}"
proof (rule set_eqI, rule iffI)
  fix q assume "q \<in> set (pairings n)"
  then show "q \<in> canon_lists {0..<n}"
    using pairings_perm[of q n] by (simp add: canon_lists_def position_perm_def)
next
  fix q assume "q \<in> canon_lists {0..<n}"
  then have q: "position_perm n q" "canon q"
    by (auto simp: canon_lists_def position_perm_def)
  let ?p = "positions q"
  have "position_perm n ?p" using q(1) by (rule position_perm_positions)
  moreover have "positions ?p = q" using q(1) by (rule positions_positions)
  ultimately have "?p \<in> set (filter (\<lambda>p. canon (positions p)) (permutations [0..<n]))"
    using q(2) by (simp add: set_permutations_upt)
  then have "positions ?p \<in> set (pairings n)"
    unfolding pairings_def by (simp only: set_map image_eqI)
  then show "q \<in> set (pairings n)" using \<open>positions ?p = q\<close> by simp
qed

lemma distinct_pairings: "distinct (pairings n)"
proof -
  let ?ps = "filter (\<lambda>p. canon (positions p)) (permutations [0..<n])"
  have "distinct (permutations [0..<n])"
    by (rule distinct_permutations) simp
  then have d: "distinct ?ps" by (rule distinct_filter)
  have "inj_on positions (set ?ps)"
  proof (rule inj_onI)
    fix p p' assume "p \<in> set ?ps" "p' \<in> set ?ps" and eq: "positions p = positions p'"
    then have "p \<in> set (permutations [0..<n])" "p' \<in> set (permutations [0..<n])"
      by simp_all
    then have "position_perm n p" "position_perm n p'"
      unfolding set_permutations_upt by simp_all
    then have "positions (positions p) = p" "positions (positions p') = p'"
      using positions_positions by blast+
    with eq show "p = p'" by metis
  qed
  with d have "distinct (map positions ?ps)" by (simp only: distinct_map simp_thms)
  then show ?thesis by (simp only: pairings_def)
qed

lemma length_pairings: "length (pairings (2 * n)) = dfact_odd n"
proof -
  have "length (pairings (2 * n)) = card (set (pairings (2 * n)))"
    using distinct_pairings by (simp add: distinct_card)
  also have "\<dots> = dfact_odd n"
    unfolding set_pairings by (rule card_canon_lists) simp_all
  finally show ?thesis .
qed

lemma distinct_pairs_of_pairings: "distinct (map pairs_of (pairings n))"
proof -
  have "inj_on pairs_of (set (pairings n))"
  proof (rule inj_onI)
    fix q q' assume "q \<in> set (pairings n)" "q' \<in> set (pairings n)" "pairs_of q = pairs_of q'"
    then show "q = q'"
      using pairings_perm[of q n] pairings_perm[of q' n]
      by (intro pairs_of_inj) (simp_all add: position_perm_def)
  qed
  then show ?thesis using distinct_pairings by (simp add: distinct_map)
qed

subsection \<open>What the generator yields\<close>

lemma isserlis_loop_yielded:
  "y \<in> set (fst (isserlis_loop seq ps)) \<Longrightarrow> \<exists>p\<in>set ps. rearranged seq p = Inr y"
proof (induction ps)
  case Nil
  then show ?case by simp
next
  case (Cons p ps)
  then show ?case
    by (auto simp: yield_def split: sum.splits if_splits)
qed

lemma mset_map_nth_perm:
  assumes "position_perm (length seq) q"
  shows "mset (map ((!) seq) q) = mset seq"
proof -
  have "mset q = mset [0..<length seq]" using assms by (simp add: position_perm_mset)
  then have "image_mset ((!) seq) (mset q) = image_mset ((!) seq) (mset [0..<length seq])"
    by (rule arg_cong)
  then have "mset (map ((!) seq) q) = mset (map ((!) seq) [0..<length seq])"
    by (simp only: mset_map)
  then show ?thesis by (simp only: map_nth)
qed

lemma isserlis_yielded_mset:
  assumes "y \<in> set (fst (isserlis seq))"
  shows "mset y = mset seq"
proof -
  from assms obtain p where p: "p \<in> set (permutations [0..<length seq])"
    and y: "rearranged seq p = Inr y"
    unfolding isserlis_def using isserlis_loop_yielded by blast
  from p have pp: "position_perm (length seq) p" by (simp add: set_permutations_upt)
  then have "y = map ((!) seq) (positions p)"
    using y rearranged_perm[OF pp] by simp
  then show ?thesis
    using mset_map_nth_perm[OF position_perm_positions[OF pp]] by simp
qed

lemma canon_hd_zero:
  assumes "position_perm n q" "canon q" "0 < n"
  shows "q \<noteq> []" "q ! 0 = 0"
proof -
  have z: "0 \<in> set q" using assms(1,3) by (simp add: position_perm_def)
  then show ne: "q \<noteq> []" by auto
  then obtain a r where q: "q = a # r" by (cases q) auto
  then have "canon_from a q" using assms(2) by (simp add: canon_def)
  then have "a \<le> 0" using z by (rule canon_from_lower)
  then show "q ! 0 = 0" using q by simp
qed

lemma isserlis_even_hd:
  assumes "length seq = 2 * m" "0 < m" "y \<in> set (fst (isserlis seq))"
  shows "hd y = hd seq"
proof -
  from assms obtain q where q: "q \<in> set (pairings (2 * m))" and y: "y = map ((!) seq) q"
    by (auto simp: isserlis_even)
  from q have pq: "position_perm (2 * m) q" "canon q" by (simp_all add: pairings_perm)
  from canon_hd_zero[OF pq] assms(2) have "q \<noteq> []" "q ! 0 = 0" by simp_all
  then have "hd y = seq ! 0" unfolding y by (simp add: hd_map hd_conv_nth)
  moreover have "seq \<noteq> []" using assms(1,2) by auto
  ultimately show ?thesis by (simp add: hd_conv_nth)
qed

lemma test_accepts_zero_first:
  assumes "position_perm (2 * m) p" "0 < m" "test (2 * m) p = Inr True"
  shows "tuple_index p 0 = Inr 0"
proof -
  have c: "canon (positions p)" using test_even[OF assms(1,2)] assms(3) by simp
  have "positions p ! 0 = 0"
    using canon_hd_zero(2)[OF position_perm_positions[OF assms(1)] c] assms(2) by simp
  moreover have "length p = 2 * m" using assms(1) by (rule position_perm_length)
  ultimately have "the_index p 0 = 0" using assms(2) by (simp add: positions_nth)
  then show ?thesis using tuple_index_perm(1)[OF assms(1), of 0] assms(2) by simp
qed

subsection \<open>The shapes of the stationary reduction\<close>

lemma comprehension_list_all2:
  "comprehension f xs = Inr ys \<Longrightarrow> list_all2 (\<lambda>x y. f x = Inr y) xs ys"
proof (induction xs arbitrary: ys)
  case Nil
  then show ?case by simp
next
  case (Cons x xs)
  then show ?case by (auto split: sum.splits)
qed

lemma lags_Inr:
  assumes "lags n el = Inr l"
  shows "length l = length (range2 n)" "\<And>x. x \<in> set l \<Longrightarrow> 0 \<le> x"
proof -
  let ?f = "\<lambda>j. case getitem el (j + 1) of
              Inl e \<Rightarrow> Inl e
            | Inr a \<Rightarrow> (case getitem el j of Inl e \<Rightarrow> Inl e | Inr b \<Rightarrow> Inr (\<bar>a - b\<bar>))"
  have a: "list_all2 (\<lambda>j y. ?f j = Inr y) (range2 n) l"
    using assms unfolding lags_def by (rule comprehension_list_all2)
  then show "length l = length (range2 n)" by (simp add: list_all2_lengthD)
  fix x assume "x \<in> set l"
  then obtain k where k: "k < length l" "l ! k = x" by (auto simp: in_set_conv_nth)
  with a have "?f (range2 n ! k) = Inr x" by (auto simp: list_all2_conv_all_nth)
  then show "0 \<le> x" by (auto split: sum.splits)
qed

lemma length_range2_even: "length (range2 (2 * n)) = n"
  by (simp add: range2_def)

lemma py_max_Inr:
  assumes "py_max l = Inr m"
  shows "l \<noteq> []" "m = Max (set l)"
proof -
  from assms show "l \<noteq> []" by (cases l) auto
  then obtain x xs where l: "l = x # xs" by (cases l) auto
  with assms have "m = fold max xs x" by simp
  then show "m = Max (set l)" unfolding l by (simp only: Max.set_eq_fold)
qed

lemma sum_list_shape:
  assumes "\<And>x. x \<in> set l \<Longrightarrow> 0 \<le> x \<and> x \<le> m"
  shows "sum_list (shape l m) = length l"
proof -
  have "sum_list (shape l m) = sum (count_list l) (set [0..m])"
    unfolding shape_def by (rule sum_list_distinct_conv_sum_set) simp
  also have "\<dots> = length l"
    using assms by (intro sum_count_set) auto
  finally show ?thesis .
qed

lemma last_shape:
  assumes "0 \<le> m"
  shows "shape l m \<noteq> []" "last (shape l m) = count_list l m" "int (length (shape l m)) = m + 1"
proof -
  have u: "[0..m] = [0..m - 1] @ [m]" using assms by (rule upto_rec2)
  show "shape l m \<noteq> []" unfolding shape_def u by simp
  show "last (shape l m) = count_list l m" unfolding shape_def u by simp
  show "int (length (shape l m)) = m + 1" using assms by (simp add: shape_def)
qed

lemma stationary_loop_yielded:
  "s \<in> set (fst (stationary_loop n els r)) \<Longrightarrow>
     \<exists>el\<in>set els. \<exists>l m. lags n el = Inr l \<and> py_max l = Inr m \<and> s = shape l m"
proof (induction els)
  case Nil
  then show ?case by simp
next
  case (Cons el els)
  then show ?case
    by (auto simp: yield_def split: sum.splits)
qed

lemma isserlis_stationary_yielded:
  assumes "s \<in> set (fst (isserlis_stationary seq))"
  obtains el l where "el \<in> set (fst (isserlis seq))" "lags (length seq) el = Inr l"
    "l \<noteq> []" "s = shape l (Max (set l))" "\<forall>x\<in>set l. 0 \<le> x \<and> x \<le> Max (set l)"
proof -
  from assms obtain el l m where el: "el \<in> set (fst (isserlis seq))"
    and l: "lags (length seq) el = Inr l" and m: "py_max l = Inr m" and s: "s = shape l m"
    unfolding isserlis_stationary_def using stationary_loop_yielded by blast
  note mm = py_max_Inr[OF m]
  have "\<forall>x\<in>set l. 0 \<le> x \<and> x \<le> Max (set l)"
    using lags_Inr(2)[OF l] by simp
  with el l mm s that show thesis by blast
qed

lemma isserlis_stationary_sum:
  assumes "length seq = 2 * n" "s \<in> set (fst (isserlis_stationary seq))"
  shows "sum_list s = n"
proof -
  from assms(2) obtain el l where "el \<in> set (fst (isserlis seq))"
    and l: "lags (length seq) el = Inr l" and "l \<noteq> []"
    and s: "s = shape l (Max (set l))"
    and b: "\<forall>x\<in>set l. 0 \<le> x \<and> x \<le> Max (set l)"
    by (rule isserlis_stationary_yielded)
  have "sum_list s = length l" unfolding s using b by (intro sum_list_shape) blast
  also have "\<dots> = n" using lags_Inr(1)[OF l] assms(1) by (simp add: length_range2_even)
  finally show ?thesis .
qed

lemma isserlis_stationary_last:
  assumes "s \<in> set (fst (isserlis_stationary seq))"
  shows "s \<noteq> [] \<and> 0 < last s"
proof -
  from assms obtain el l where "el \<in> set (fst (isserlis seq))"
    and "lags (length seq) el = Inr l" and l: "l \<noteq> []"
    and s: "s = shape l (Max (set l))"
    and b: "\<forall>x\<in>set l. 0 \<le> x \<and> x \<le> Max (set l)"
    by (rule isserlis_stationary_yielded)
  have in_l: "Max (set l) \<in> set l" using l by (intro Max_in) auto
  then have m0: "0 \<le> Max (set l)" using b by blast
  have "count_list l (Max (set l)) \<noteq> 0" using in_l by (simp add: count_list_0_iff)
  then show ?thesis unfolding s using last_shape(1,2)[OF m0, of l] by simp
qed

lemma lags_even:
  assumes "length el = 2 * m"
  shows "lags (2 * m) el = Inr (map (\<lambda>j. \<bar>el ! (j + 1) - el ! j\<bar>) (range2 (2 * m)))"
  unfolding lags_def
proof (rule comprehension_Inr)
  fix j assume "j \<in> set (range2 (2 * m))"
  then have "j + 1 < 2 * m" by (auto simp: range2_def)
  then show "(case getitem el (j + 1) of Inl e \<Rightarrow> Inl e
      | Inr a \<Rightarrow> (case getitem el j of Inl e \<Rightarrow> Inl e | Inr b \<Rightarrow> Inr \<bar>a - b\<bar>)) =
      Inr \<bar>el ! (j + 1) - el ! j\<bar>"
    using assms by (simp add: getitem_def)
qed

lemma stationary_loop_total:
  assumes "0 < m"
  shows "(\<And>el. el \<in> set els \<Longrightarrow> length el = 2 * m) \<Longrightarrow>
    snd (stationary_loop (2 * m) els None) = None \<and>
    length (fst (stationary_loop (2 * m) els None)) = length els"
proof (induction els)
  case Nil
  then show ?case by simp
next
  case (Cons el els)
  have len: "length el = 2 * m" using Cons.prems by simp
  let ?l = "map (\<lambda>j. \<bar>el ! (j + 1) - el ! j\<bar>) (range2 (2 * m))"
  have l: "lags (2 * m) el = Inr ?l" using len by (rule lags_even)
  have "?l \<noteq> []" using assms by (simp add: range2_def)
  then obtain x where x: "py_max ?l = Inr x" by (cases ?l) auto
  have IH: "snd (stationary_loop (2 * m) els None) = None \<and>
    length (fst (stationary_loop (2 * m) els None)) = length els"
    using Cons by simp
  show ?case
    by (simp only: stationary_loop.simps l x sum.case yield_def fst_conv snd_conv IH list.size)
qed

lemma isserlis_stationary_total:
  assumes "length seq = 2 * m" "0 < m"
  shows "snd (isserlis_stationary seq) = None \<and>
    length (fst (isserlis_stationary seq)) = dfact_odd m"
proof -
  have i: "isserlis seq = (map (map ((!) seq)) (pairings (2 * m)), None)"
    using assms by (rule isserlis_even)
  let ?els = "map (map ((!) seq)) (pairings (2 * m))"
  have len: "length el = 2 * m" if "el \<in> set ?els" for el
  proof -
    from that obtain q where "q \<in> set (pairings (2 * m))" "el = map ((!) seq) q" by auto
    then show ?thesis using pairings_perm[of q "2 * m"] position_perm_length by auto
  qed
  have "snd (stationary_loop (2 * m) ?els None) = None \<and>
    length (fst (stationary_loop (2 * m) ?els None)) = length ?els"
    using assms(2) len by (rule stationary_loop_total)
  then show ?thesis
    unfolding isserlis_stationary_def i assms(1) by (simp add: length_pairings)
qed

subsection \<open>The integers of the analytical labelling\<close>

lemma fold_enumerate_notin:
  "a \<notin> set es \<Longrightarrow>
   fold (\<lambda>(k, el) d. d(el \<mapsto> (2::int) ^ k - 1)) (enumerate j es) d a = d a"
  by (induction es arbitrary: j d) auto

lemma fold_enumerate_nth:
  "distinct es \<Longrightarrow> k < length es \<Longrightarrow>
   fold (\<lambda>(k, el) d. d(el \<mapsto> (2::int) ^ k - 1)) (enumerate j es) d (es ! k) = Some (2 ^ (j + k) - 1)"
proof (induction es arbitrary: j d k)
  case Nil
  then show ?case by simp
next
  case (Cons x es)
  let ?F = "\<lambda>(k, el) d. d(el \<mapsto> (2::int) ^ k - 1)"
  have step: "fold ?F (enumerate j (x # es)) d = fold ?F (enumerate (Suc j) es) (d(x \<mapsto> 2 ^ j - 1))"
    by simp
  show ?case
  proof (cases k)
    case 0
    have "x \<notin> set es" using Cons.prems(1) by simp
    then have "fold ?F (enumerate (Suc j) es) (d(x \<mapsto> 2 ^ j - 1)) x = (d(x \<mapsto> 2 ^ j - 1)) x"
      by (rule fold_enumerate_notin)
    then show ?thesis unfolding step 0 by simp
  next
    case (Suc k')
    have "fold ?F (enumerate (Suc j) es) (d(x \<mapsto> 2 ^ j - 1)) (es ! k') = Some (2 ^ (Suc j + k') - 1)"
      using Cons.prems Suc by (intro Cons.IH) simp_all
    then show ?thesis unfolding step Suc by simp
  qed
qed

lemma correspondances_nth:
  "distinct es \<Longrightarrow> k < length es \<Longrightarrow> correspondances es (es ! k) = Some (2 ^ k - 1)"
  unfolding correspondances_def using fold_enumerate_nth[of es k 0] by simp

lemma correspondances_Some:
  assumes "distinct es" "correspondances es a = Some v"
  obtains k where "k < length es" "es ! k = a" "v = 2 ^ k - 1"
proof -
  have "a \<in> set es"
  proof (rule ccontr)
    assume "a \<notin> set es"
    then have "correspondances es a = None"
      unfolding correspondances_def by (simp add: fold_enumerate_notin)
    with assms(2) show False by simp
  qed
  then obtain k where k: "k < length es" "es ! k = a" by (auto simp: in_set_conv_nth)
  with correspondances_nth[OF assms(1) k(1)] assms(2) have "v = 2 ^ k - 1" by simp
  with k that show thesis by blast
qed

lemma pow2_sum_parity:
  fixes i j k l :: nat
  assumes "j < i" "l < k" "j < l" "(2::nat) ^ i + 2 ^ l = 2 ^ k + 2 ^ j"
  shows False
proof -
  define i' where "i' = i - Suc j"
  define l' where "l' = l - Suc j"
  define k' where "k' = k - Suc j"
  have i: "i = j + Suc i'" using assms(1) by (simp add: i'_def)
  have l: "l = j + Suc l'" using assms(3) by (simp add: l'_def)
  have k: "k = j + Suc k'" using assms(2,3) by (simp add: k'_def)
  have "(2::nat) ^ (j + Suc i') + 2 ^ (j + Suc l') = 2 ^ (j + Suc k') + 2 ^ j"
    using assms(4) by (simp only: i l k)
  then have "(2::nat) ^ j * (2 ^ Suc i' + 2 ^ Suc l') = 2 ^ j * (2 ^ Suc k' + 1)"
    by (simp only: power_add distrib_left mult_1_right)
  then have e: "(2::nat) ^ Suc i' + 2 ^ Suc l' = 2 ^ Suc k' + 1"
    by (simp only: mult_cancel1) simp
  have "even ((2::nat) ^ Suc i' + 2 ^ Suc l')" by simp
  then have "even ((2::nat) ^ Suc k' + 1)" by (simp only: e)
  then show False by simp
qed

lemma pow2_diff_ordered:
  fixes i j k l :: nat
  assumes "j < i" "l < k" "(2::nat) ^ i + 2 ^ l = 2 ^ k + 2 ^ j"
  shows "i = k \<and> j = l"
proof -
  have jl: "j = l"
  proof (rule ccontr)
    assume "j \<noteq> l"
    then consider "j < l" | "l < j" by linarith
    then show False
    proof cases
      case 1
      with assms show False using pow2_sum_parity by blast
    next
      case 2
      have "(2::nat) ^ k + 2 ^ j = 2 ^ i + 2 ^ l" using assms(3) by simp
      with assms(1,2) 2 show False using pow2_sum_parity[of l k j i] by blast
    qed
  qed
  with assms(3) have "(2::nat) ^ i = 2 ^ k" by simp
  then have "i = k" by simp
  with jl show ?thesis by simp
qed

lemma pow2_absdiff_unique:
  fixes i j k l :: nat
  assumes "i \<noteq> j" "k \<noteq> l"
    and "\<bar>((2::int) ^ i - 1) - (2 ^ j - 1)\<bar> = \<bar>((2::int) ^ k - 1) - (2 ^ l - 1)\<bar>"
  shows "{i, j} = {k, l}"
proof -
  have key: "{i, j} = {k, l}"
    if "j < i" "l < k" "\<bar>(2::int) ^ i - 2 ^ j\<bar> = \<bar>(2::int) ^ k - 2 ^ l\<bar>" for i j k l :: nat
  proof -
    have "(2::int) ^ j < 2 ^ i" "(2::int) ^ l < 2 ^ k" using that by simp_all
    with that(3) have "(2::int) ^ i - 2 ^ j = 2 ^ k - 2 ^ l" by simp
    then have "(2::int) ^ i + 2 ^ l = 2 ^ k + 2 ^ j" by simp
    then have "int (2 ^ i + 2 ^ l) = int (2 ^ k + 2 ^ j)" by simp
    then have "(2::nat) ^ i + 2 ^ l = 2 ^ k + 2 ^ j" by (simp only: of_nat_eq_iff)
    with that(1,2) have "i = k \<and> j = l" by (rule pow2_diff_ordered)
    then show ?thesis by simp
  qed
  have e: "\<bar>(2::int) ^ i - 2 ^ j\<bar> = \<bar>(2::int) ^ k - 2 ^ l\<bar>" using assms(3) by simp
  consider "j < i" "l < k" | "j < i" "k < l" | "i < j" "l < k" | "i < j" "k < l"
    using assms(1,2) by linarith
  then show ?thesis
  proof cases
    case 1
    then show ?thesis using key[of j i l k] e by simp
  next
    case 2
    have "\<bar>(2::int) ^ i - 2 ^ j\<bar> = \<bar>(2::int) ^ l - 2 ^ k\<bar>" using e by (simp add: abs_minus_commute)
    with 2 key[of j i k l] show ?thesis by auto
  next
    case 3
    have "\<bar>(2::int) ^ j - 2 ^ i\<bar> = \<bar>(2::int) ^ k - 2 ^ l\<bar>" using e by (simp add: abs_minus_commute)
    with 3 key[of i j l k] show ?thesis by auto
  next
    case 4
    have "\<bar>(2::int) ^ j - 2 ^ i\<bar> = \<bar>(2::int) ^ l - 2 ^ k\<bar>" using e by (simp add: abs_minus_commute)
    with 4 key[of i j k l] show ?thesis by auto
  qed
qed

lemma correspondances_differences:
  assumes d: "distinct es"
    and a: "correspondances es a = Some va" and b: "correspondances es b = Some vb"
    and c: "correspondances es c = Some vc" and d': "correspondances es d = Some vd"
    and ab: "a \<noteq> b" and cd: "c \<noteq> d"
    and eq: "\<bar>va - vb\<bar> = \<bar>vc - vd\<bar>"
  shows "{a, b} = {c, d}"
proof -
  from d a obtain i where i: "i < length es" "es ! i = a" "va = 2 ^ i - 1"
    by (rule correspondances_Some)
  from d b obtain j where j: "j < length es" "es ! j = b" "vb = 2 ^ j - 1"
    by (rule correspondances_Some)
  from d c obtain k where k: "k < length es" "es ! k = c" "vc = 2 ^ k - 1"
    by (rule correspondances_Some)
  from d d' obtain l where l: "l < length es" "es ! l = d" "vd = 2 ^ l - 1"
    by (rule correspondances_Some)
  have "i \<noteq> j" "k \<noteq> l" using ab cd i j k l by auto
  then have "{i, j} = {k, l}"
    using eq unfolding i j k l by (rule pow2_absdiff_unique)
  then have "(i = k \<and> j = l) \<or> (i = l \<and> j = k)" by (auto simp: doubleton_eq_iff)
  then show ?thesis using i j k l by auto
qed

subsection \<open>The store and the order of the permutations\<close>

lemma isserlis_loop_store_eq:
  "isserlis_loop_store seq (length seq) ps = (isserlis_loop seq ps, seq)"
proof (induction ps)
  case Nil
  then show ?case by simp
next
  case (Cons p ps)
  then show ?case
    by (simp add: rearranged_def split: sum.splits)
qed

lemma isserlis_store_eq: "isserlis_store seq = (isserlis seq, seq)"
  by (simp add: isserlis_store_def isserlis_def isserlis_loop_store_eq)

lemma test_loop_odd_not_True:
  assumes "odd n" "position_perm n p"
  shows "k < (n + 1) div 2 \<Longrightarrow>
    test_loop p i (map (\<lambda>k. 2 * k) [k..<(n + 1) div 2]) \<noteq> Inr True"
proof (induction "(n + 1) div 2 - k" arbitrary: k i)
  case 0
  then show ?case by simp
next
  case (Suc d)
  have upt: "[k..<(n + 1) div 2] = k # [Suc k..<(n + 1) div 2]"
    using Suc.prems(1) by (simp add: upt_conv_Cons)
  show ?case
  proof (cases "2 * k + 1 < n")
    case True
    then have k': "Suc k < (n + 1) div 2" using assms(1) by presburger
    have "d = (n + 1) div 2 - Suc k" using Suc.hyps(2) by simp
    from Suc.hyps(1)[OF this k']
    have "test_loop p i' (map (\<lambda>k. 2 * k) [Suc k..<(n + 1) div 2]) \<noteq> Inr True" for i'
      by simp
    then show ?thesis
      by (subst upt) (auto split: sum.splits)
  next
    case False
    then have "2 * k + 1 \<notin> set p" using assms(2) by (simp add: position_perm_def)
    then have "tuple_index p (2 * k + 1) = Inl ValueError" by (rule tuple_index_notin)
    then show ?thesis
      by (subst upt) (auto split: sum.splits)
  qed
qed

lemma test_not_True:
  assumes "position_perm n p" "odd n \<or> n = 0"
  shows "test n p \<noteq> Inr True"
proof (cases "n = 0")
  case True
  then have "p = []" using assms(1) by (simp add: position_perm_def)
  then show ?thesis by (simp add: test_def)
next
  case False
  with assms(2) have o: "odd n" by simp
  have "0 < (n + 1) div 2" using False by simp
  from test_loop_odd_not_True[OF o assms(1) this]
  show ?thesis
    by (auto simp: test_def range2_def split: sum.splits)
qed

lemma isserlis_loop_no_yield:
  "(\<And>p. p \<in> set ps \<Longrightarrow> test (length seq) p \<noteq> Inr True) \<Longrightarrow>
   fst (isserlis_loop seq ps) = []"
proof (induction ps)
  case Nil
  then show ?case by simp
next
  case (Cons p ps)
  then have "test (length seq) p \<noteq> Inr True" "fst (isserlis_loop seq ps) = []" by simp_all
  then show ?case by (auto split: sum.splits)
qed

lemma isserlis_loop_order:
  assumes "mset ps = mset (permutations [0..<length seq])"
  shows "mset (fst (isserlis_loop seq ps)) = mset (fst (isserlis seq))"
proof -
  let ?n = "length seq"
  let ?qs = "permutations [0..<?n]"
  have sets: "set ps = set ?qs" using assms by (rule mset_eq_setD)
  then have perm: "position_perm ?n p" if "p \<in> set ps" for p
    using that by (simp add: set_permutations_upt)
  have perm': "position_perm ?n p" if "p \<in> set ?qs" for p
    using that by (simp add: set_permutations_upt)
  show ?thesis
  proof (cases "odd ?n \<or> ?n = 0")
    case True
    have "fst (isserlis_loop seq ps) = []"
      using perm True by (intro isserlis_loop_no_yield test_not_True)
    moreover have "fst (isserlis_loop seq ?qs) = []"
      using perm' True by (intro isserlis_loop_no_yield test_not_True)
    ultimately show ?thesis by (simp add: isserlis_def)
  next
    case False
    then obtain m where m: "?n = 2 * m" by (auto elim: evenE)
    with False have m0: "0 < m" by simp
    let ?f = "\<lambda>p. map ((!) seq) (positions p)" and ?P = "\<lambda>p. canon (positions p)"
    have a: "isserlis_loop seq ps = (map ?f (filter ?P ps), None)"
      using perm unfolding m by (intro isserlis_loop_even[OF m m0])
    have b: "isserlis_loop seq ?qs = (map ?f (filter ?P ?qs), None)"
      using perm' unfolding m by (intro isserlis_loop_even[OF m m0])
    have "mset (map ?f (filter ?P ps)) = image_mset ?f (filter_mset ?P (mset ps))"
      by simp
    also have "\<dots> = image_mset ?f (filter_mset ?P (mset ?qs))"
      by (simp only: assms)
    also have "\<dots> = mset (map ?f (filter ?P ?qs))" by simp
    finally show ?thesis by (simp add: a b isserlis_def)
  qed
qed

section \<open>The claims\<close>

text \<open>
  C1, as stated, fails at \<open>n = 0\<close>: on the empty input, which has even length,
  \<^verbatim>\<open>isserlis\<close> yields no partition and raises, while \<open>(2n-1)!!\<close> is 1 there.
\<close>

theorem isserlis_count_counterexample:
  "even (length ([] :: int list)) \<and>
   length (fst (isserlis ([] :: int list))) \<noteq> dfact_odd 0 \<and>
   snd (isserlis ([] :: int list)) = Some ValueError"
  by (simp add: isserlis_empty)

text \<open>
  C1, amended. For every non-empty input of even length \<open>2n\<close>, \<^verbatim>\<open>isserlis\<close> returns
  without an exception and yields exactly \<open>(2n-1)!!\<close> partitions. The partitions are the
  rearrangements of the input by the lists of positions that \<^verbatim>\<open>isserlis\<close> yields on
  \<^verbatim>\<open>range(2n)\<close>, whatever the values of the symbols; each of these lists holds every
  position once, and no two of them stand for the same set of unordered pairs of
  positions.
\<close>

theorem isserlis_count:
  assumes "length seq = 2 * n" and "0 < n"
  shows "isserlis seq = (map (map ((!) seq)) (fst (isserlis [0..<2 * n])), None) \<and>
    length (fst (isserlis seq)) = dfact_odd n \<and>
    (\<forall>q\<in>set (fst (isserlis [0..<2 * n])). distinct q \<and> set q = {0..<2 * n}) \<and>
    distinct (map pairs_of (fst (isserlis [0..<2 * n])))"
proof -
  have u: "fst (isserlis [0..<2 * n]) = pairings (2 * n)"
    using isserlis_upt[OF assms(2)] by simp
  have "\<forall>q\<in>set (pairings (2 * n)). distinct q \<and> set q = {0..<2 * n}"
    using pairings_perm by (auto simp: position_perm_def)
  then show ?thesis
    unfolding u using isserlis_even[OF assms] length_pairings[of n] distinct_pairs_of_pairings
    by simp
qed

theorem isserlis_count_witness:
  "length [1, 1, 2, 2 :: int] = 2 * 2 \<and>
   isserlis [1, 1, 2, 2 :: int] = ([[1, 1, 2, 2], [1, 2, 1, 2], [1, 2, 1, 2]], None) \<and>
   fst (isserlis [0..<2 * 2]) = [[0, 1, 2, 3], [0, 2, 1, 3], [0, 3, 1, 2]] \<and>
   length (fst (isserlis [1, 1, 2, 2 :: int])) = dfact_odd 2 \<and>
   dfact_odd 2 = 3 \<and>
   distinct (map pairs_of (fst (isserlis [0..<2 * 2])))"
proof -
  have h: "length [1, 1, 2, 2 :: int] = 2 * 2" by simp
  have e1: "isserlis [1, 1, 2, 2 :: int] = ([[1, 1, 2, 2], [1, 2, 1, 2], [1, 2, 1, 2]], None)"
    by code_simp
  have e2: "fst (isserlis [0..<2 * 2]) = [[0, 1, 2, 3], [0, 2, 1, 3], [0, 3, 1, 2]]"
    by code_simp
  have e3: "dfact_odd 2 = 3" by code_simp
  have n: "(0 :: nat) < 2" by simp
  note t = isserlis_count[OF h n]
  have "length (fst (isserlis [1, 1, 2, 2 :: int])) = dfact_odd 2"
    using t by (elim conjE)
  moreover have "distinct (map pairs_of (fst (isserlis [0..<2 * 2])))"
    using t by (elim conjE)
  ultimately show ?thesis using h e1 e2 e3 by (intro conjI)
qed

text \<open>
  C2. For every input of even length \<open>2n\<close>, the entries of every shape that
  \<^verbatim>\<open>isserlis_stationary\<close> yields sum to \<open>n\<close>, the number of pairs. (For \<open>n > 0\<close> the
  generator returns without an exception and yields \<open>(2n-1)!!\<close> shapes:
  \<open>isserlis_stationary_total\<close>.)
\<close>

theorem stationary_shape_sum:
  "length seq = 2 * n \<Longrightarrow> \<forall>s\<in>set (fst (isserlis_stationary seq)). sum_list s = n"
  using isserlis_stationary_sum by blast

theorem stationary_shape_sum_witness:
  "length [0, 0, 1, 3 :: int] = 2 * 2 \<and>
   fst (isserlis_stationary [0, 0, 1, 3]) = [[1, 0, 1], [0, 1, 0, 1], [0, 1, 0, 1]] \<and>
   sum_list [0, 1, 0, 1 :: nat] = 2"
proof -
  have h: "length [0, 0, 1, 3 :: int] = 2 * 2" by simp
  have e: "fst (isserlis_stationary [0, 0, 1, 3]) = [[1, 0, 1], [0, 1, 0, 1], [0, 1, 0, 1]]"
    by code_simp
  then have "[0, 1, 0, 1] \<in> set (fst (isserlis_stationary [0, 0, 1, 3]))" by simp
  with stationary_shape_sum[OF h] have "sum_list [0, 1, 0, 1 :: nat] = 2" by blast
  with h e show ?thesis by (intro conjI)
qed

text \<open>
  C10. Every shape that \<^verbatim>\<open>isserlis_stationary\<close> yields is non-empty and has a strictly
  positive last entry: it comes from a yielded partition with a non-empty list of lags
  \<open>l\<close>, its length is \<open>max(l) + 1\<close> and its last entry is the number of occurrences of
  \<open>max(l)\<close> in \<open>l\<close>. This holds for every input, so for every non-empty input of even
  length.
\<close>

theorem stationary_shape_last_positive:
  "\<forall>s\<in>set (fst (isserlis_stationary seq)).
     s \<noteq> [] \<and> 0 < last s \<and>
     (\<exists>el\<in>set (fst (isserlis seq)). \<exists>l. lags (length seq) el = Inr l \<and> l \<noteq> [] \<and>
        int (length s) = Max (set l) + 1 \<and> last s = count_list l (Max (set l)))"
proof
  fix s assume a: "s \<in> set (fst (isserlis_stationary seq))"
  then obtain el l where el: "el \<in> set (fst (isserlis seq))"
    and l: "lags (length seq) el = Inr l" and ne: "l \<noteq> []"
    and s: "s = shape l (Max (set l))"
    and b: "\<forall>x\<in>set l. 0 \<le> x \<and> x \<le> Max (set l)"
    by (rule isserlis_stationary_yielded)
  have "Max (set l) \<in> set l" using ne by (intro Max_in) auto
  then have m0: "0 \<le> Max (set l)" using b by blast
  from last_shape(2,3)[OF m0, of l] el l ne s isserlis_stationary_last[OF a]
  show "s \<noteq> [] \<and> 0 < last s \<and>
     (\<exists>el\<in>set (fst (isserlis seq)). \<exists>l. lags (length seq) el = Inr l \<and> l \<noteq> [] \<and>
        int (length s) = Max (set l) + 1 \<and> last s = count_list l (Max (set l)))"
    by blast
qed

theorem stationary_shape_last_positive_witness:
  "fst (isserlis_stationary [0, 0, 1, 3]) = [[1, 0, 1], [0, 1, 0, 1], [0, 1, 0, 1]] \<and>
   [1, 0, 1 :: nat] \<noteq> [] \<and> 0 < last [1, 0, 1 :: nat]"
proof -
  have e: "fst (isserlis_stationary [0, 0, 1, 3]) = [[1, 0, 1], [0, 1, 0, 1], [0, 1, 0, 1]]"
    by code_simp
  then have "[1, 0, 1] \<in> set (fst (isserlis_stationary [0, 0, 1, 3]))" by simp
  with stationary_shape_last_positive[of "[0, 0, 1, 3]"]
  have "[1, 0, 1 :: nat] \<noteq> [] \<and> 0 < last [1, 0, 1 :: nat]" by blast
  with e show ?thesis by (intro conjI) blast+
qed

text \<open>
  C3. Every partition that \<^verbatim>\<open>isserlis\<close> yields is a rearrangement of the input: it has
  the same multiset of elements. This holds for every input, so for every input of even
  length.
\<close>

theorem isserlis_rearranges:
  "\<forall>y\<in>set (fst (isserlis seq)). mset y = mset seq"
  using isserlis_yielded_mset by blast

theorem isserlis_rearranges_witness:
  "fst (isserlis [1, 1, 2, 2 :: int]) = [[1, 1, 2, 2], [1, 2, 1, 2], [1, 2, 1, 2]] \<and>
   mset [1, 2, 1, 2] = mset [1, 1, 2, 2 :: int]"
proof -
  have e: "fst (isserlis [1, 1, 2, 2 :: int]) = [[1, 1, 2, 2], [1, 2, 1, 2], [1, 2, 1, 2]]"
    by code_simp
  then have "[1, 2, 1, 2] \<in> set (fst (isserlis [1, 1, 2, 2 :: int]))" by simp
  with isserlis_rearranges[of "[1, 1, 2, 2 :: int]"] e show ?thesis by blast
qed

text \<open>
  C8. \<^verbatim>\<open>isserlis\<close> is deterministic and free of side effects: a run leaves the list
  object of the caller as it was and yields what the function of the input says, so a
  second run on the same object yields the same partitions; and the multiset of the
  yielded partitions does not depend on the order in which the permutations are
  generated.
\<close>

theorem isserlis_deterministic_pure:
  "snd (isserlis_store seq) = seq \<and>
   fst (isserlis_store seq) = isserlis seq \<and>
   fst (isserlis_store (snd (isserlis_store seq))) = fst (isserlis_store seq) \<and>
   (\<forall>ps. mset ps = mset (permutations [0..<length seq]) \<longrightarrow>
      mset (fst (isserlis_loop seq ps)) = mset (fst (isserlis seq)))"
proof (intro conjI allI impI)
  show "snd (isserlis_store seq) = seq" by (simp add: isserlis_store_eq)
  show "fst (isserlis_store seq) = isserlis seq" by (simp add: isserlis_store_eq)
  show "fst (isserlis_store (snd (isserlis_store seq))) = fst (isserlis_store seq)"
    by (simp add: isserlis_store_eq)
next
  fix ps assume "mset ps = mset (permutations [0..<length seq])"
  then show "mset (fst (isserlis_loop seq ps)) = mset (fst (isserlis seq))"
    by (rule isserlis_loop_order)
qed

theorem isserlis_deterministic_pure_witness:
  "mset [[1, 0], [0, 1 :: nat]] = mset (permutations [0..<length [7, 9 :: int]]) \<and>
   fst (isserlis_loop [7, 9 :: int] [[1, 0], [0, 1]]) = [[7, 9]] \<and>
   fst (isserlis [7, 9 :: int]) = [[7, 9]] \<and>
   isserlis_store [7, 9 :: int] = (([[7, 9]], None), [7, 9])"
proof -
  have p: "permutations [0..<length [7, 9 :: int]] = [[0, 1], [1, 0]]" by code_simp
  have h: "mset [[1, 0], [0, 1 :: nat]] = mset (permutations [0..<length [7, 9 :: int]])"
    unfolding p by simp
  have e1: "fst (isserlis_loop [7, 9 :: int] [[1, 0], [0, 1]]) = [[7, 9]]" by code_simp
  have e2: "isserlis_store [7, 9 :: int] = (([[7, 9]], None), [7, 9])" by code_simp
  have "mset (fst (isserlis_loop [7, 9 :: int] [[1, 0], [0, 1]])) = mset (fst (isserlis [7, 9 :: int]))"
    using isserlis_deterministic_pure[of "[7, 9 :: int]"] h by blast
  then have e3: "fst (isserlis [7, 9 :: int]) = [[7, 9]]" unfolding e1 by simp
  from h e1 e2 e3 show ?thesis by (intro conjI)
qed

text \<open>
  C9. For every non-empty input of even length, every partition that \<^verbatim>\<open>isserlis\<close> yields
  starts with the first element of the input, and every permutation that \<^verbatim>\<open>test\<close>
  accepts has the value 0 at position 0 (\<^verbatim>\<open>p.index(0) == 0\<close>).
\<close>

theorem isserlis_first_element:
  assumes "seq \<noteq> []" and "even (length seq)"
  shows "(\<forall>y\<in>set (fst (isserlis seq)). hd y = hd seq) \<and>
    (\<forall>p\<in>set (permutations [0..<length seq]).
       test (length seq) p = Inr True \<longrightarrow> tuple_index p 0 = Inr 0)"
proof -
  from assms(2) obtain m where m1: "length seq = 2 * m" by (auto elim: evenE)
  with assms(1) have m2: "0 < m" by (cases m) auto
  note m = m1 m2
  have "\<forall>y\<in>set (fst (isserlis seq)). hd y = hd seq"
    using isserlis_even_hd[OF m] by blast
  moreover have "\<forall>p\<in>set (permutations [0..<length seq]).
       test (length seq) p = Inr True \<longrightarrow> tuple_index p 0 = Inr 0"
    unfolding m(1) set_permutations_upt using test_accepts_zero_first[OF _ m(2)] by blast
  ultimately show ?thesis by blast
qed

theorem isserlis_first_element_witness:
  "[5, 6, 7, 8 :: int] \<noteq> [] \<and> even (length [5, 6, 7, 8 :: int]) \<and>
   fst (isserlis [5, 6, 7, 8 :: int]) = [[5, 6, 7, 8], [5, 7, 6, 8], [5, 8, 6, 7]] \<and>
   hd [5, 7, 6, 8] = hd [5, 6, 7, 8 :: int] \<and>
   [0, 2, 1, 3] \<in> set (permutations [0..<length [5, 6, 7, 8 :: int]]) \<and>
   test (length [5, 6, 7, 8 :: int]) [0, 2, 1, 3] = Inr True \<and>
   tuple_index [0, 2, 1, 3] (0 :: nat) = Inr 0"
proof -
  have h: "[5, 6, 7, 8 :: int] \<noteq> []" "even (length [5, 6, 7, 8 :: int])" by simp_all
  have e1: "fst (isserlis [5, 6, 7, 8 :: int]) = [[5, 6, 7, 8], [5, 7, 6, 8], [5, 8, 6, 7]]"
    by code_simp
  have e2: "[0, 2, 1, 3] \<in> set (permutations [0..<length [5, 6, 7, 8 :: int]])"
    by code_simp
  have e3: "test (length [5, 6, 7, 8 :: int]) [0, 2, 1, 3] = Inr True"
    by code_simp
  have "[5, 7, 6, 8] \<in> set (fst (isserlis [5, 6, 7, 8 :: int]))" unfolding e1 by simp
  with isserlis_first_element[OF h] e2 e3
  have "hd [5, 7, 6, 8] = hd [5, 6, 7, 8 :: int]" "tuple_index [0, 2, 1, 3] (0 :: nat) = Inr 0"
    by blast+
  with h e1 e2 e3 show ?thesis by blast
qed

text \<open>
  C4. The integers that \<^verbatim>\<open>isserlis_stationary_analytical\<close> assigns (the \<open>k\<close>-th distinct
  token gets \<open>2^k - 1\<close>: \<open>correspondances_nth\<close>) have distinct absolute differences across
  distinct unordered pairs: for tokens \<open>a \<noteq> b\<close> and \<open>c \<noteq> d\<close> with values \<open>va\<close>, \<open>vb\<close>, \<open>vc\<close>,
  \<open>vd\<close>, \<open>|va - vb| = |vc - vd|\<close> implies \<open>{a, b} = {c, d}\<close>. Four distinct tokens are the
  special case in which the two pairs cannot be equal, so their differences differ.
\<close>

theorem analytical_differences_unique:
  assumes "distinct set_elements"
    and "correspondances set_elements a = Some va"
    and "correspondances set_elements b = Some vb"
    and "correspondances set_elements c = Some vc"
    and "correspondances set_elements d = Some vd"
    and "a \<noteq> b" and "c \<noteq> d"
    and "\<bar>va - vb\<bar> = \<bar>vc - vd\<bar>"
  shows "{a, b} = {c, d}"
  using assms by (rule correspondances_differences)

theorem analytical_differences_unique_witness:
  "distinct [''t'', ''t+t_1'', ''t+t_2''] \<and>
   correspondances [''t'', ''t+t_1'', ''t+t_2''] ''t+t_1'' = Some 1 \<and>
   correspondances [''t'', ''t+t_1'', ''t+t_2''] ''t+t_2'' = Some 3 \<and>
   ''t+t_1'' \<noteq> ''t+t_2'' \<and>
   \<bar>(1::int) - 3\<bar> = \<bar>3 - 1\<bar> \<and>
   {''t+t_1'', ''t+t_2''} = {''t+t_2'', ''t+t_1''}"
proof -
  have h1: "distinct [''t'', ''t+t_1'', ''t+t_2'']" by simp
  have h2: "correspondances [''t'', ''t+t_1'', ''t+t_2''] ''t+t_1'' = Some 1" by code_simp
  have h3: "correspondances [''t'', ''t+t_1'', ''t+t_2''] ''t+t_2'' = Some 3" by code_simp
  have h4: "''t+t_1'' \<noteq> ''t+t_2''" "''t+t_2'' \<noteq> ''t+t_1''" by simp_all
  have h5: "\<bar>(1::int) - 3\<bar> = \<bar>3 - 1\<bar>" by simp
  from analytical_differences_unique[OF h1 h2 h3 h3 h2 h4 h5] h1 h2 h3 h4(1) h5
  show ?thesis by (intro conjI)
qed

text \<open>
  C5. For every input of odd length \<^verbatim>\<open>isserlis\<close> fails: the generator raises
  \<^verbatim>\<open>ValueError\<close> (from \<^verbatim>\<open>t.index(j+1)\<close> in \<^verbatim>\<open>test\<close>, on the first permutation) and has
  yielded no partition before.
\<close>

theorem isserlis_odd_length_fails:
  "odd (length seq) \<Longrightarrow> isserlis seq = ([], Some ValueError)"
  by (rule isserlis_odd)

theorem isserlis_odd_length_fails_witness:
  "odd (length [1, 2, 3 :: int]) \<and> isserlis [1, 2, 3 :: int] = ([], Some ValueError)"
  using isserlis_odd_length_fails [of "[1, 2, 3 :: int]"] by simp

text \<open>
  C6, as stated, fails: on the empty input \<^verbatim>\<open>isserlis\<close> does not yield one (empty)
  partition and \<^verbatim>\<open>isserlis_stationary\<close> does not yield one (empty) shape; both yield
  nothing and raise.
\<close>

theorem empty_input_counterexample:
  "length (fst (isserlis ([] :: int list))) \<noteq> 1 \<and>
   snd (isserlis ([] :: int list)) \<noteq> None \<and>
   length (fst (isserlis_stationary [])) \<noteq> 1 \<and>
   snd (isserlis_stationary []) \<noteq> None"
  by (simp add: isserlis_empty isserlis_stationary_empty)

text \<open>
  C6, amended. On the empty input \<^verbatim>\<open>isserlis\<close> yields no partition and raises
  \<^verbatim>\<open>ValueError\<close> (the lookup \<^verbatim>\<open>t.index(0)\<close> in the empty permutation), and
  \<^verbatim>\<open>isserlis_stationary\<close> yields no shape and raises the same error.
\<close>

theorem empty_input_raises:
  "isserlis ([] :: 'a list) = ([], Some ValueError) \<and>
   isserlis_stationary [] = ([], Some ValueError)"
  by (simp add: isserlis_empty isserlis_stationary_empty)

text \<open>
  C7, as stated, fails: on the tokens \<^verbatim>\<open>['t','t','t+t_1','t+t_1']\<close> the shape \<open>(1,1)\<close> is
  not among the shapes of the mapped list \<open>[0,0,1,1]\<close>, and when the set of tokens is
  iterated in the other order the mapped list is \<open>[1,1,0,0]\<close>.
\<close>

theorem analytical_scenario_counterexample:
  "[1, 1] \<notin> set (fst (isserlis_stationary [0, 0, 1, 1])) \<and>
   set_iteration [''t'', ''t'', ''t+t_1'', ''t+t_1''] [''t+t_1'', ''t''] \<and>
   isserlis_stationary_analytical [''t+t_1'', ''t''] [''t'', ''t'', ''t+t_1'', ''t+t_1''] =
     Inr ([1, 1, 0, 0], [[2], [0, 2], [0, 2]], None)"
  by code_simp

text \<open>
  C7, amended. On the tokens \<^verbatim>\<open>['t','t','t+t_1','t+t_1']\<close>, when the set of distinct tokens
  is iterated in the order of first occurrence, \<^verbatim>\<open>isserlis_stationary_analytical\<close> assigns
  \<open>0\<close> to \<^verbatim>\<open>t\<close> and \<open>1\<close> to \<^verbatim>\<open>t+t_1\<close>, returns the mapped list \<open>[0,0,1,1]\<close>, and the
  stationary reduction yields the three shapes \<open>(2)\<close>, \<open>(0,2)\<close>, \<open>(0,2)\<close>, each with
  entries summing to 2.
\<close>

theorem analytical_scenario:
  "set_iteration [''t'', ''t'', ''t+t_1'', ''t+t_1''] [''t'', ''t+t_1''] \<and>
   correspondances [''t'', ''t+t_1''] ''t'' = Some 0 \<and>
   correspondances [''t'', ''t+t_1''] ''t+t_1'' = Some 1 \<and>
   isserlis_stationary_analytical [''t'', ''t+t_1''] [''t'', ''t'', ''t+t_1'', ''t+t_1''] =
     Inr ([0, 0, 1, 1], [[2], [0, 2], [0, 2]], None) \<and>
   map sum_list (fst (isserlis_stationary [0, 0, 1, 1])) = [2, 2, 2]"
  by code_simp

end
